theory Spec2Isabelle
  imports Complex_Main
begin

section \<open>Histogram cursors of \<open>toolbox/hdr/Iterator.cpp\<close>\<close>

text \<open>
  The three iterators of \<open>Iterator.cpp\<close> (\<open>AllValuesIterator\<close>, \<open>RecordedIterator\<close>,
  \<open>PercentileIterator\<close>) share the stepping loop \<open>HdrIterator::operator++\<close> and differ in
  the virtual hooks \<open>has_next\<close>, \<open>reached_iteration_level\<close>, \<open>increment_iteration_level\<close>
  and \<open>get_percentile_iterated_to\<close>. The class chain is modelled as one record of all
  member fields with a tag naming the dynamic type; each hook dispatches on the tag.

  Conventions of the model.
  \<^item> \<open>int64_t\<close> members are \<open>int\<close>, and every \<open>int64_t\<close> addition, subtraction and
    multiplication of the source is reduced into the range of the type (\<open>wrap64\<close>).
    Signed overflow is undefined in C++; the model takes the two's-complement result.
  \<^item> The \<open>int32_t\<close> index is an \<open>int\<close>: it only counts up from 0 and a read outside
    the table stops the run, so it stays within the length of the table.
  \<^item> \<open>double\<close> is the type \<open>double\<close> below: a real number or one of the IEEE special
    values. The conversion of an \<open>int64_t\<close> to \<open>double\<close> rounds as IEEE does. The
    operations on doubles are exact: their rounding, overflow to infinity and the sign
    of zero are not modelled, and \<open>log\<close> and \<open>pow\<close> are the real functions.
  \<^item> A read of the count table outside \<open>0..<length counts\<close> is the error \<open>OutOfRange\<close>.
\<close>

subsection \<open>Machine integers\<close>

definition int64 :: "int \<Rightarrow> bool" where
  "int64 x \<longleftrightarrow> - (2 ^ 63) \<le> x \<and> x < 2 ^ 63"

definition wrap64 :: "int \<Rightarrow> int" where
  "wrap64 x = (x + 2 ^ 63) mod 2 ^ 64 - 2 ^ 63"

subsection \<open>Doubles\<close>

datatype double = Fin real | PInf | NInf | NaN

fun dneg :: "double \<Rightarrow> double" where
  "dneg (Fin a) = Fin (- a)"
| "dneg PInf = NInf"
| "dneg NInf = PInf"
| "dneg NaN = NaN"

fun dadd :: "double \<Rightarrow> double \<Rightarrow> double" where
  "dadd (Fin a) (Fin b) = Fin (a + b)"
| "dadd NaN _ = NaN"
| "dadd _ NaN = NaN"
| "dadd PInf NInf = NaN"
| "dadd NInf PInf = NaN"
| "dadd PInf _ = PInf"
| "dadd _ PInf = PInf"
| "dadd NInf _ = NInf"
| "dadd _ NInf = NInf"

definition dsub :: "double \<Rightarrow> double \<Rightarrow> double" where
  "dsub x y = dadd x (dneg y)"

text \<open>Sign of a double that is not NaN: \<open>1\<close>, \<open>0\<close> or \<open>-1\<close>.\<close>

fun dsgn :: "double \<Rightarrow> int" where
  "dsgn (Fin a) = (if a = 0 then 0 else if 0 < a then 1 else - 1)"
| "dsgn PInf = 1"
| "dsgn NInf = - 1"
| "dsgn NaN = 0"

definition inf_of_sign :: "int \<Rightarrow> double" where
  "inf_of_sign s = (if s = 0 then NaN else if 0 < s then PInf else NInf)"

fun dmul :: "double \<Rightarrow> double \<Rightarrow> double" where
  "dmul (Fin a) (Fin b) = Fin (a * b)"
| "dmul NaN _ = NaN"
| "dmul _ NaN = NaN"
| "dmul x y = inf_of_sign (dsgn x * dsgn y)"

text \<open>
  Division. A finite nonzero number over zero is an infinity, zero over zero is NaN, a
  finite number over an infinity is zero, an infinity over an infinity is NaN. Zero
  counts as positive zero.
\<close>

fun ddiv :: "double \<Rightarrow> double \<Rightarrow> double" where
  "ddiv (Fin a) (Fin b) = (if b = 0 then inf_of_sign (dsgn (Fin a)) else Fin (a / b))"
| "ddiv NaN _ = NaN"
| "ddiv _ NaN = NaN"
| "ddiv (Fin a) _ = Fin 0"
| "ddiv PInf (Fin b) = (if 0 \<le> b then PInf else NInf)"
| "ddiv NInf (Fin b) = (if 0 \<le> b then NInf else PInf)"
| "ddiv _ _ = NaN"

text \<open>\<open>x >= y\<close>: false whenever an operand is NaN.\<close>

fun dge :: "double \<Rightarrow> double \<Rightarrow> bool" where
  "dge (Fin a) (Fin b) = (b \<le> a)"
| "dge NaN _ = False"
| "dge _ NaN = False"
| "dge PInf _ = True"
| "dge _ NInf = True"
| "dge _ _ = False"

text \<open>A double used as a condition: true unless it is zero (NaN is true).\<close>

fun dtruthy :: "double \<Rightarrow> bool" where
  "dtruthy (Fin a) = (a \<noteq> 0)"
| "dtruthy _ = True"

text \<open>\<open>log\<close> of \<open><cmath>\<close>: NaN below zero, minus infinity at zero.\<close>

fun dlog :: "double \<Rightarrow> double" where
  "dlog (Fin a) = (if a < 0 then NaN else if a = 0 then NInf else Fin (ln a))"
| "dlog PInf = PInf"
| "dlog NInf = NaN"
| "dlog NaN = NaN"

text \<open>\<open>pow(2, y)\<close>.\<close>

fun dpow2 :: "double \<Rightarrow> double" where
  "dpow2 (Fin y) = Fin (2 powr y)"
| "dpow2 PInf = PInf"
| "dpow2 NInf = Fin 0"
| "dpow2 NaN = NaN"

text \<open>
  An \<open>int64_t\<close> used as a \<open>double\<close>: the nearest number with 53 significant bits, the
  even one of two that are equally near. \<open>excess_bits a\<close> is the number of bits of
  \<open>a\<close> beyond 53, for \<open>a\<close> up to \<open>2 ^ 63\<close>.
\<close>

definition excess_bits :: "int \<Rightarrow> nat" where
  "excess_bits a =
     (if a < 2 ^ 53 then 0 else if a < 2 ^ 54 then 1 else if a < 2 ^ 55 then 2
      else if a < 2 ^ 56 then 3 else if a < 2 ^ 57 then 4 else if a < 2 ^ 58 then 5
      else if a < 2 ^ 59 then 6 else if a < 2 ^ 60 then 7 else if a < 2 ^ 61 then 8
      else if a < 2 ^ 62 then 9 else if a < 2 ^ 63 then 10 else 11)"

definition round_to_double :: "int \<Rightarrow> int" where
  "round_to_double n =
     (let a = \<bar>n\<bar>; e = excess_bits a; q = a div 2 ^ e; r = a mod 2 ^ e;
          q1 = (if 2 ^ e < 2 * r \<or> (2 * r = 2 ^ e \<and> odd q) then q + 1 else q)
      in sgn n * (q1 * 2 ^ e))"

definition d_of_int :: "int \<Rightarrow> double" where
  "d_of_int n = Fin (of_int (round_to_double n))"

subsection \<open>The histogram as the iterators see it\<close>

text \<open>
  Modelled from the spec: \<open>Histogram.hpp\<close> is not part of the sources at hand. The
  iterators read the members \<open>counts_len\<close>, \<open>unit_magnitude\<close>, \<open>total_count_\<close>,
  \<open>int_to_double_conversion_ratio_\<close> and call \<open>get_count_at_index\<close>,
  \<open>get_value_from_index\<close> and \<open>get_highest_equivalent_value\<close>. The count table is "an
  ordered sequence of non-negative integer counts indexed 0..counts_len-1"; the two
  value functions belong to the bucket layout, which is left open, so they are
  parameters of the histogram.
\<close>

record hdr_histogram =
  counts :: "int list"
  counts_len :: int
  unit_magnitude :: nat
  total_count :: int
  hist_conversion_ratio :: double
  get_value_from_index :: "int \<Rightarrow> int"
  get_highest_equivalent_value :: "int \<Rightarrow> int"

datatype error = OutOfRange

text \<open>
  Modelled from the spec: "\<open>count_at_index(i)\<close>: returns the stored count; out-of-range
  access is a precondition violation, not a recoverable error."
\<close>

definition get_count_at_index :: "hdr_histogram \<Rightarrow> int \<Rightarrow> error + int" where
  "get_count_at_index h i =
     (if 0 \<le> i \<and> i < int (length (counts h)) then Inr (counts h ! nat i)
      else Inl OutOfRange)"

text \<open>
  The invariants the spec gives for a histogram: \<open>counts_len\<close> slots (at least one),
  non-negative counts, \<open>total_count\<close> their sum.
\<close>

definition wf_hist :: "hdr_histogram \<Rightarrow> bool" where
  "wf_hist h \<longleftrightarrow>
     counts_len h = int (length (counts h)) \<and> 1 \<le> counts_len h \<and>
     list_all (\<lambda>c. 0 \<le> c) (counts h) \<and> total_count h = sum_list (counts h)"

subsection \<open>Iterator state\<close>

datatype policy = AllValues | Recorded | Percentile

record iteration_value =
  value_iterated_to :: int
  value_iterated_from :: int
  count_at_value_iterated_to :: int
  count_added_in_this_iter_step :: int
  total_count_to_this_value :: int
  total_value_to_this_value :: int
  percentile :: double
  percentile_level_iterated_to :: double
  int_to_double_conversion_ratio :: double

record hdr_iterator =
  dyn_type :: policy
  hist :: hdr_histogram
  current_index :: int
  value_at_index :: int
  value_at_next_index :: int
  prev_value_iterated_to :: int
  total_count_to_prev_index :: int
  total_count_to_current_index :: int
  value_to_index :: int
  count_at_this_value :: int
  fresh_sub_bucket :: bool
  current_iteration_value :: iteration_value
  it_total_count :: int
  it_conversion_ratio :: double
  end_flag :: bool
  visited_index :: int
  percentile_ticks_per_half_distance :: double
  percentile_to_iterate_to :: double
  percentile_to_iterate_from :: double
  reached_last_recorded_value :: bool

text \<open>
  Modelled from the spec: the default member initialisers are in \<open>Iterator.hpp\<close>, which
  is not part of the sources at hand. A new cursor stands at index 0 with nothing
  folded in ("fresh" set), no index visited, no emission made, not exhausted, the
  percentile target at 0 and the final 100% step not yet taken. The constructor
  \<open>HdrIterator(hist)\<close> itself sets \<open>value_at_next_index_\<close>, \<open>total_count_\<close> and
  \<open>int_to_double_conversion_ratio_\<close> from the histogram; \<open>1ll << unit_magnitude\<close> is
  \<open>2 ^ unit_magnitude\<close>, for a magnitude below 63.
\<close>

definition empty_iteration_value :: iteration_value where
  "empty_iteration_value =
     \<lparr> value_iterated_to = 0, value_iterated_from = 0, count_at_value_iterated_to = 0,
       count_added_in_this_iter_step = 0, total_count_to_this_value = 0,
       total_value_to_this_value = 0, percentile = Fin 0,
       percentile_level_iterated_to = Fin 0, int_to_double_conversion_ratio = Fin 0 \<rparr>"

definition HdrIterator :: "policy \<Rightarrow> hdr_histogram \<Rightarrow> double \<Rightarrow> hdr_iterator" where
  "HdrIterator p h ticks =
     \<lparr> dyn_type = p, hist = h, current_index = 0, value_at_index = 0,
       value_at_next_index = 2 ^ unit_magnitude h,
       prev_value_iterated_to = 0, total_count_to_prev_index = 0,
       total_count_to_current_index = 0, value_to_index = 0, count_at_this_value = 0,
       fresh_sub_bucket = True, current_iteration_value = empty_iteration_value,
       it_total_count = total_count h, it_conversion_ratio = hist_conversion_ratio h,
       end_flag = False, visited_index = - 1,
       percentile_ticks_per_half_distance = ticks,
       percentile_to_iterate_to = Fin 0, percentile_to_iterate_from = Fin 0,
       reached_last_recorded_value = False \<rparr>"

definition AllValuesIterator :: "hdr_histogram \<Rightarrow> hdr_iterator" where
  "AllValuesIterator h = HdrIterator AllValues h (Fin 0)"

definition RecordedIterator :: "hdr_histogram \<Rightarrow> hdr_iterator" where
  "RecordedIterator h = HdrIterator Recorded h (Fin 0)"

definition PercentileIterator :: "hdr_histogram \<Rightarrow> double \<Rightarrow> hdr_iterator" where
  "PercentileIterator h ticks = HdrIterator Percentile h ticks"

subsection \<open>The hooks\<close>

text \<open>
  The hooks are taken to be virtual, as the spec describes them ("three hooks supplied
  by each policy", "percentile target = policy-specific"): the declarations are in
  \<open>Iterator.hpp\<close>. So \<open>operator++\<close> and \<open>HdrIterationValue::set\<close> call the hook of
  the dynamic type.

  \<open>has_next\<close> is \<open>const\<close> in the source but writes the \<open>mutable\<close> members \<open>end_\<close>,
  \<open>percentile_to_iterate_to_\<close> and \<open>reached_last_recorded_value_\<close>: it returns the
  answer together with the iterator.
\<close>

definition base_has_next :: "hdr_iterator \<Rightarrow> bool" where
  "base_has_next it \<longleftrightarrow> total_count_to_current_index it < it_total_count it"

definition all_values_has_next :: "hdr_iterator \<Rightarrow> bool \<times> hdr_iterator" where
  "all_values_has_next it =
     (let next = current_index it < counts_len (hist it) - 1
      in (next, if \<not> next then it\<lparr>end_flag := True\<rparr> else it))"

definition percentile_has_next :: "hdr_iterator \<Rightarrow> bool \<times> hdr_iterator" where
  "percentile_has_next it =
     (if base_has_next it then (True, it)
      else if \<not> reached_last_recorded_value it \<and> it_total_count it \<noteq> 0
      then (True, it\<lparr>percentile_to_iterate_to := Fin 100,
                      reached_last_recorded_value := True\<rparr>)
      else (False, it\<lparr>end_flag := True\<rparr>))"

definition has_next :: "hdr_iterator \<Rightarrow> bool \<times> hdr_iterator" where
  "has_next it =
     (case dyn_type it of
        AllValues \<Rightarrow> all_values_has_next it
      | Recorded \<Rightarrow> all_values_has_next it
      | Percentile \<Rightarrow> percentile_has_next it)"

definition get_value_iterated_to :: "hdr_iterator \<Rightarrow> int" where
  "get_value_iterated_to it = get_highest_equivalent_value (hist it) (value_at_index it)"

definition get_percentile_iterated_to :: "hdr_iterator \<Rightarrow> double" where
  "get_percentile_iterated_to it =
     (case dyn_type it of
        Percentile \<Rightarrow> percentile_to_iterate_to it
      | _ \<Rightarrow> ddiv (dmul (Fin 100) (d_of_int (total_count_to_current_index it)))
                  (d_of_int (it_total_count it)))"

definition reached_iteration_level :: "hdr_iterator \<Rightarrow> error + bool" where
  "reached_iteration_level it =
     (case dyn_type it of
        AllValues \<Rightarrow> Inr (visited_index it \<noteq> current_index it)
      | Recorded \<Rightarrow>
          (case get_count_at_index (hist it) (current_index it) of
             Inl e \<Rightarrow> Inl e
           | Inr current_count \<Rightarrow>
               Inr (current_count \<noteq> 0 \<and> visited_index it \<noteq> current_index it))
      | Percentile \<Rightarrow>
          (if count_at_this_value it = 0 then Inr False
           else let current_percentile =
                      ddiv (dmul (Fin 100) (d_of_int (total_count_to_current_index it)))
                           (d_of_int (it_total_count it))
                in Inr (dge current_percentile (percentile_to_iterate_to it))))"

definition percentile_increment_iteration_level :: "hdr_iterator \<Rightarrow> hdr_iterator" where
  "percentile_increment_iteration_level it =
     (let it1 = it\<lparr>percentile_to_iterate_from := percentile_to_iterate_to it\<rparr>;
          percentile_gap = dsub (Fin 100) (percentile_to_iterate_to it1)
      in if dtruthy percentile_gap
         then let half_distance =
                    dpow2 (dadd (ddiv (dlog (ddiv (Fin 100) percentile_gap)) (dlog (Fin 2)))
                                (Fin 1));
                  percentile_reporting_ticks =
                    dmul (percentile_ticks_per_half_distance it1) half_distance
              in it1\<lparr>percentile_to_iterate_to :=
                       dadd (percentile_to_iterate_to it1)
                            (ddiv (Fin 100) percentile_reporting_ticks)\<rparr>
         else it1)"

definition increment_iteration_level :: "hdr_iterator \<Rightarrow> hdr_iterator" where
  "increment_iteration_level it =
     (case dyn_type it of
        Percentile \<Rightarrow> percentile_increment_iteration_level it
      | _ \<Rightarrow> it\<lparr>visited_index := current_index it\<rparr>)"

subsection \<open>The snapshot and the stepping loop\<close>

definition set_value :: "hdr_iterator \<Rightarrow> int \<Rightarrow> iteration_value" where
  "set_value it v =
     \<lparr> value_iterated_to = v,
       value_iterated_from = prev_value_iterated_to it,
       count_at_value_iterated_to = count_at_this_value it,
       count_added_in_this_iter_step =
         wrap64 (total_count_to_current_index it - total_count_to_prev_index it),
       total_count_to_this_value = total_count_to_current_index it,
       total_value_to_this_value = value_to_index it,
       percentile = ddiv (dmul (Fin 100) (d_of_int (total_count_to_current_index it)))
                         (d_of_int (it_total_count it)),
       percentile_level_iterated_to = get_percentile_iterated_to it,
       int_to_double_conversion_ratio = it_conversion_ratio it \<rparr>"

definition increment_sub_bucket :: "hdr_iterator \<Rightarrow> hdr_iterator" where
  "increment_sub_bucket it =
     it\<lparr>fresh_sub_bucket := True,
        current_index := current_index it + 1,
        value_at_index := get_value_from_index (hist it) (current_index it + 1),
        value_at_next_index := get_value_from_index (hist it) (current_index it + 1 + 1)\<rparr>"

text \<open>Lines 103 to 108 of the loop body: read the count, fold it in when fresh.\<close>

definition fold_count :: "hdr_iterator \<Rightarrow> int \<Rightarrow> hdr_iterator" where
  "fold_count it c =
     (let it1 = it\<lparr>count_at_this_value := c\<rparr>
      in if fresh_sub_bucket it1
         then it1\<lparr>total_count_to_current_index :=
                    wrap64 (total_count_to_current_index it1 + c),
                  value_to_index :=
                    wrap64 (value_to_index it1 + wrap64 (c * get_value_iterated_to it1)),
                  fresh_sub_bucket := False\<rparr>
         else it1)"

text \<open>Lines 110 to 116: the emitting branch.\<close>

definition emit :: "hdr_iterator \<Rightarrow> hdr_iterator" where
  "emit it =
     (let v = get_value_iterated_to it;
          it1 = it\<lparr>current_iteration_value := set_value it v\<rparr>;
          it2 = it1\<lparr>prev_value_iterated_to := v,
                    total_count_to_prev_index := total_count_to_current_index it1\<rparr>
      in increment_iteration_level it2)"

function advance :: "hdr_iterator \<Rightarrow> error + hdr_iterator" where
  "advance it =
     (case has_next it of
        (False, it1) \<Rightarrow> Inr it1
      | (True, it1) \<Rightarrow>
          (case get_count_at_index (hist it1) (current_index it1) of
             Inl e \<Rightarrow> Inl e
           | Inr c \<Rightarrow>
               (case reached_iteration_level (fold_count it1 c) of
                  Inl e \<Rightarrow> Inl e
                | Inr True \<Rightarrow> Inr (emit (fold_count it1 c))
                | Inr False \<Rightarrow> advance (increment_sub_bucket (fold_count it1 c)))))"
  by pat_completeness auto

termination advance
  apply (relation "measure (\<lambda>it. nat (int (length (counts (hist it))) - current_index it))")
   apply simp
  apply (auto simp: increment_sub_bucket_def fold_count_def get_count_at_index_def
                    has_next_def all_values_has_next_def percentile_has_next_def Let_def
              split: policy.splits if_splits)
  done

declare advance.simps [simp del]

subsection \<open>Equality and consumption\<close>

text \<open>
  \<open>operator==\<close> on two \<open>RecordedIterator\<close>s and on two \<open>PercentileIterator\<close>s: both
  overloads have the same body.
\<close>

definition iterator_eq :: "hdr_iterator \<Rightarrow> hdr_iterator \<Rightarrow> bool" where
  "iterator_eq lhs rhs \<longleftrightarrow> end_flag lhs = end_flag rhs"

definition iterator_neq :: "hdr_iterator \<Rightarrow> hdr_iterator \<Rightarrow> bool" where
  "iterator_neq lhs rhs \<longleftrightarrow> \<not> iterator_eq lhs rhs"

text \<open>\<open>n\<close> advance requests in a row, stopping at the first error.\<close>

fun advance_n :: "nat \<Rightarrow> hdr_iterator \<Rightarrow> error + hdr_iterator" where
  "advance_n 0 it = Inr it"
| "advance_n (Suc n) it =
     (case advance it of Inl e \<Rightarrow> Inl e | Inr it1 \<Rightarrow> advance_n n it1)"

text \<open>
  Modelled from the spec: the adapter that drives a cursor is in \<open>Iterator.hpp\<close>, which
  is not part of the sources at hand. "A consumer repeatedly asks a cursor 'is there
  more?', advances it, and reads the current snapshot", and the end is detected through
  the exhausted flag. A complete traversal advances until \<open>end_\<close> is set and collects
  the snapshot left by every advance that returned with \<open>end_\<close> still clear, which for
  a cursor that starts with \<open>end_\<close> clear are the advances that returned from the
  emitting branch. The number of emissions of a percentile cursor has no bound in the
  code, so the traversal takes fuel: \<open>None\<close> means the fuel ran out. The result carries
  the emitted snapshots in order and the cursor as the traversal left it.
\<close>

fun traverse :: "nat \<Rightarrow> hdr_iterator \<Rightarrow> (error + iteration_value list \<times> hdr_iterator) option"
  where
  "traverse 0 it = None"
| "traverse (Suc n) it =
     (case advance it of
        Inl e \<Rightarrow> Some (Inl e)
      | Inr it1 \<Rightarrow>
          if end_flag it1 then Some (Inr ([], it1))
          else (case traverse n it1 of
                  None \<Rightarrow> None
                | Some (Inl e) \<Rightarrow> Some (Inl e)
                | Some (Inr (xs, it2)) \<Rightarrow> Some (Inr (current_iteration_value it1 # xs, it2))))"

text \<open>The snapshots of a traversal that ran to the end without error.\<close>

definition emissions :: "nat \<Rightarrow> hdr_iterator \<Rightarrow> iteration_value list option" where
  "emissions n it =
     (case traverse n it of Some (Inr (xs, it1)) \<Rightarrow> Some xs | _ \<Rightarrow> None)"

subsection \<open>Example histograms\<close>

text \<open>
  The values 1, 1, 2, 2, 2, 5 in a layout with one slot per value (slot \<open>i\<close> holds the
  value \<open>i\<close>) and seven slots.
\<close>

definition example_hist :: hdr_histogram where
  "example_hist =
     \<lparr> counts = [0, 2, 3, 0, 0, 1, 0], counts_len = 7, unit_magnitude = 0, total_count = 6,
       hist_conversion_ratio = Fin 1, get_value_from_index = (\<lambda>i. i),
       get_highest_equivalent_value = (\<lambda>v. v) \<rparr>"

text \<open>The same layout with three slots and nothing recorded.\<close>

definition zero_hist :: hdr_histogram where
  "zero_hist =
     \<lparr> counts = [0, 0, 0], counts_len = 3, unit_magnitude = 0, total_count = 0,
       hist_conversion_ratio = Fin 1, get_value_from_index = (\<lambda>i. i),
       get_highest_equivalent_value = (\<lambda>v. v) \<rparr>"

text \<open>The same six values in six slots: the value 5 sits in the last slot.\<close>

definition last_slot_hist :: hdr_histogram where
  "last_slot_hist =
     \<lparr> counts = [0, 2, 3, 0, 0, 1], counts_len = 6, unit_magnitude = 0, total_count = 6,
       hist_conversion_ratio = Fin 1, get_value_from_index = (\<lambda>i. i),
       get_highest_equivalent_value = (\<lambda>v. v) \<rparr>"

text \<open>
  Four slots with \<open>2 ^ 62\<close> values in slot 2, whose value is 2: the weighted sum of
  that slot alone is \<open>2 ^ 63\<close>.
\<close>

definition overflow_hist :: hdr_histogram where
  "overflow_hist =
     \<lparr> counts = [0, 0, 4611686018427387904, 0], counts_len = 4, unit_magnitude = 0,
       total_count = 4611686018427387904,
       hist_conversion_ratio = Fin 1, get_value_from_index = (\<lambda>i. i),
       get_highest_equivalent_value = (\<lambda>v. v) \<rparr>"

text \<open>Four slots with \<open>2 ^ 60 - 1\<close> values in slot 1 and one value in slot 2.\<close>

definition big_hist :: hdr_histogram where
  "big_hist =
     \<lparr> counts = [0, 1152921504606846975, 1, 0], counts_len = 4, unit_magnitude = 0,
       total_count = 1152921504606846976,
       hist_conversion_ratio = Fin 1, get_value_from_index = (\<lambda>i. i),
       get_highest_equivalent_value = (\<lambda>v. v) \<rparr>"

text \<open>
  A percentile cursor with one tick per half distance over \<open>big_hist\<close> that stands at
  slot 1 with the count of that slot folded in, a target below 100, and the end not
  reached.
\<close>

definition at_big_slot :: "hdr_iterator \<Rightarrow> bool" where
  "at_big_slot it \<longleftrightarrow>
     dyn_type it = Percentile \<and> hist it = big_hist \<and>
     it_total_count it = 1152921504606846976 \<and>
     percentile_ticks_per_half_distance it = Fin 1 \<and>
     (\<exists>t. percentile_to_iterate_to it = Fin t \<and> t < 100) \<and>
     current_index it = 1 \<and> \<not> fresh_sub_bucket it \<and>
     total_count_to_current_index it = 1152921504606846975 \<and>
     \<not> reached_last_recorded_value it \<and> \<not> end_flag it"

subsection \<open>What has been folded into the running totals\<close>

text \<open>
  The value a slot contributes to the weighted sum: \<open>get_value_iterated_to\<close> at that
  slot. \<open>value_at_index_\<close> is 0 at slot 0 and \<open>get_value_from_index\<close> of the slot
  afterwards (\<open>increment_sub_bucket\<close>). \<open>folded_slots\<close> is the number of slots whose
  count the running totals hold: those before the current one, and the current one
  once the fresh flag is clear.
\<close>

definition bucket_value :: "hdr_histogram \<Rightarrow> nat \<Rightarrow> int" where
  "bucket_value h j =
     get_highest_equivalent_value h (if j = 0 then 0 else get_value_from_index h (int j))"

definition folded_slots :: "hdr_iterator \<Rightarrow> nat" where
  "folded_slots it = nat (current_index it) + (if fresh_sub_bucket it then 0 else 1)"

definition totals_folded :: "hdr_iterator \<Rightarrow> bool" where
  "totals_folded it \<longleftrightarrow>
     0 \<le> current_index it \<and> folded_slots it \<le> length (counts (hist it)) \<and>
     value_at_index it =
       (if current_index it = 0 then 0 else get_value_from_index (hist it) (current_index it)) \<and>
     total_count_to_current_index it =
       wrap64 (sum_list (take (folded_slots it) (counts (hist it)))) \<and>
     value_to_index it =
       wrap64 (\<Sum>j < folded_slots it. counts (hist it) ! j * bucket_value (hist it) j)"

section \<open>Properties\<close>

subsection \<open>Machine integers\<close>

lemma wrap64_int64: "int64 x \<Longrightarrow> wrap64 x = x"
  by (simp add: int64_def wrap64_def)

lemma wrap64_small: "- 9223372036854775808 \<le> x \<Longrightarrow> x < 9223372036854775808 \<Longrightarrow> wrap64 x = x"
  by (rule wrap64_int64) (simp add: int64_def)

lemma wrap64_0 [simp]: "wrap64 0 = 0"
  by (simp add: wrap64_def)

lemma wrap64_add_left: "wrap64 (wrap64 a + b) = wrap64 (a + b)"
proof -
  have "wrap64 a + b + 2 ^ 63 = (a + 2 ^ 63) mod 2 ^ 64 + b"
    by (simp add: wrap64_def)
  then have "(wrap64 a + b + 2 ^ 63) mod 2 ^ 64 = ((a + 2 ^ 63) mod 2 ^ 64 + b) mod 2 ^ 64"
    by (simp only:)
  also have "\<dots> = (a + 2 ^ 63 + b) mod 2 ^ 64"
    by (rule mod_add_left_eq)
  also have "a + 2 ^ 63 + b = a + b + 2 ^ 63"
    by (simp only: add.commute add.left_commute)
  finally have "(wrap64 a + b + 2 ^ 63) mod 2 ^ 64 = (a + b + 2 ^ 63) mod 2 ^ 64" .
  then show ?thesis
    by (simp only: wrap64_def[of "wrap64 a + b"] wrap64_def[of "a + b"])
qed

lemma wrap64_add_right: "wrap64 (a + wrap64 b) = wrap64 (a + b)"
  using wrap64_add_left[of b a] by (simp add: add.commute)

lemma wrap64_diff_left: "wrap64 (wrap64 a - b) = wrap64 (a - b)"
  using wrap64_add_left[of a "- b"] by simp

lemma round_to_double_0 [simp]: "round_to_double 0 = 0"
  by (simp add: round_to_double_def excess_bits_def Let_def)

lemma round_to_double_small: "\<bar>n\<bar> < 9007199254740992 \<Longrightarrow> round_to_double n = n"
  by (simp add: round_to_double_def excess_bits_def Let_def mult_sgn_abs)

lemmas hooks_defs = has_next_def all_values_has_next_def percentile_has_next_def base_has_next_def
  reached_iteration_level_def increment_iteration_level_def percentile_increment_iteration_level_def
  get_percentile_iterated_to_def get_value_iterated_to_def set_value_def increment_sub_bucket_def
  fold_count_def emit_def get_count_at_index_def d_of_int_def dsub_def inf_of_sign_def
  wrap64_small round_to_double_small

lemmas ctor_defs = HdrIterator_def AllValuesIterator_def RecordedIterator_def PercentileIterator_def
  empty_iteration_value_def

subsection \<open>The half-distance recurrence in real arithmetic\<close>

lemma half_distance_eq:
  assumes "0 < g"
  shows "2 powr (ln (100 / g) / ln 2 + 1) = 200 / (g::real)"
proof -
  have "2 powr (ln (100 / g) / ln 2 + 1) = 2 powr (log 2 (100 / g)) * 2"
    by (simp add: log_def powr_add)
  also have "\<dots> = 100 / g * 2"
    using assms by simp
  finally show ?thesis by simp
qed

lemma target_step:
  assumes "0 < g" and "k \<noteq> 0"
  shows "100 / (k * 2 powr (ln (100 / g) / ln 2 + 1)) = g / (2 * (k::real))"
proof -
  have "100 / (k * 2 powr (ln (100 / g) / ln 2 + 1)) = 100 / (k * (200 / g))"
    by (simp only: half_distance_eq[OF assms(1)])
  also have "\<dots> = g / (2 * k)"
    using assms by (simp add: field_simps)
  finally show ?thesis .
qed

subsection \<open>Equality of cursors\<close>

text \<open>
  C4 (as the code has it). \<open>operator==\<close> compares the two \<open>end_\<close> flags and nothing
  else: two cursors are equal exactly when both are exhausted or both are active. An
  exhausted cursor differs from an active one; two active cursors are equal, whatever
  their positions.
\<close>

theorem iterator_eq_same_flag:
  "(iterator_eq lhs rhs \<longleftrightarrow>
      (end_flag lhs \<and> end_flag rhs) \<or> (\<not> end_flag lhs \<and> \<not> end_flag rhs)) \<and>
   (iterator_neq lhs rhs \<longleftrightarrow>
      (end_flag lhs \<and> \<not> end_flag rhs) \<or> (\<not> end_flag lhs \<and> end_flag rhs))"
  by (auto simp: iterator_eq_def iterator_neq_def)

text \<open>
  C4 as stated ("true exactly when both are exhausted; two active cursors are never
  equal") fails: two new cursors over the example histogram are active and equal.
\<close>

theorem iterator_eq_active_counterexample:
  "iterator_eq (RecordedIterator example_hist) (RecordedIterator example_hist) \<and>
   \<not> end_flag (RecordedIterator example_hist)"
  by (simp add: iterator_eq_def ctor_defs)

subsection \<open>Advancing an exhausted cursor\<close>

text \<open>
  C10. When the continuation test of a cursor answers false, an advance request returns
  the cursor with \<open>end_\<close> set and every other member as it was: the snapshot, the
  index, the running count and weighted sum and the records of the previous emission
  are unchanged.
\<close>

theorem advance_exhausted_frame:
  assumes "fst (has_next it) = False"
  shows "advance it = Inr (it\<lparr>end_flag := True\<rparr>)"
  using assms
  by (subst advance.simps)
     (auto simp: has_next_def all_values_has_next_def percentile_has_next_def Let_def
           split: policy.splits if_splits prod.splits)

theorem advance_exhausted_frame_witness:
  "fst (has_next (PercentileIterator zero_hist (Fin 1))) = False \<and>
   advance (PercentileIterator zero_hist (Fin 1)) =
     Inr ((PercentileIterator zero_hist (Fin 1))\<lparr>end_flag := True\<rparr>)"
proof -
  have h: "fst (has_next (PercentileIterator zero_hist (Fin 1))) = False"
    by (simp add: hooks_defs ctor_defs zero_hist_def)
  show ?thesis using h advance_exhausted_frame[OF h] by simp
qed

subsection \<open>The stepping loop\<close>

lemma advance_stop:
  "has_next it = (False, it1) \<Longrightarrow> advance it = Inr it1"
  by (subst advance.simps) simp

lemma advance_emit:
  "has_next it = (True, it1) \<Longrightarrow>
   get_count_at_index (hist it1) (current_index it1) = Inr c \<Longrightarrow>
   reached_iteration_level (fold_count it1 c) = Inr True \<Longrightarrow>
   advance it = Inr (emit (fold_count it1 c))"
  by (subst advance.simps) simp

lemma advance_skip:
  "has_next it = (True, it1) \<Longrightarrow>
   get_count_at_index (hist it1) (current_index it1) = Inr c \<Longrightarrow>
   reached_iteration_level (fold_count it1 c) = Inr False \<Longrightarrow>
   advance it = advance (increment_sub_bucket (fold_count it1 c))"
  by (subst advance.simps) simp

text \<open>An invariant of the three pieces of the loop is an invariant of an advance request.\<close>

lemma advance_invariant:
  assumes adv: "advance it = Inr it'"
    and inv: "I it"
    and hn: "\<And>it b it1. I it \<Longrightarrow> has_next it = (b, it1) \<Longrightarrow> I it1"
    and em: "\<And>it c. I it \<Longrightarrow> get_count_at_index (hist it) (current_index it) = Inr c \<Longrightarrow>
               I (emit (fold_count it c))"
    and sk: "\<And>it c. I it \<Longrightarrow> get_count_at_index (hist it) (current_index it) = Inr c \<Longrightarrow>
               I (increment_sub_bucket (fold_count it c))"
  shows "I it'"
  using adv inv
proof (induction it rule: advance.induct)
  case (1 it)
  obtain b it1 where h: "has_next it = (b, it1)" by (cases "has_next it")
  have i1: "I it1" using hn[OF "1.prems"(2) h] .
  show ?case
  proof (cases b)
    case False
    then show ?thesis using "1.prems"(1) h i1 by (simp add: advance_stop)
  next
    case True
    show ?thesis
    proof (cases "get_count_at_index (hist it1) (current_index it1)")
      case (Inl e)
      then show ?thesis using "1.prems"(1) h True by (subst (asm) advance.simps) simp
    next
      case (Inr c)
      show ?thesis
      proof (cases "reached_iteration_level (fold_count it1 c)")
        case (Inl e)
        then show ?thesis using "1.prems"(1) h True Inr by (subst (asm) advance.simps) simp
      next
        case r: (Inr r)
        show ?thesis
        proof (cases r)
          case True
          with r have "advance it = Inr (emit (fold_count it1 c))"
            using h \<open>b\<close> Inr by (simp add: advance_emit)
          then show ?thesis using "1.prems"(1) em[OF i1 Inr] by simp
        next
          case False
          with r have "advance it = advance (increment_sub_bucket (fold_count it1 c))"
            using h \<open>b\<close> Inr by (simp add: advance_skip)
          then have adv': "advance (increment_sub_bucket (fold_count it1 c)) = Inr it'"
            using "1.prems"(1) by simp
          have bt: "b = True" using \<open>b\<close> by simp
          have rf: "r = False" using False by simp
          show ?thesis
            by (rule "1.IH"[OF h[symmetric] bt Inr r rf adv' sk[OF i1 Inr]])
        qed
      qed
    qed
  qed
qed

lemma has_next_frame:
  "has_next it = (b, it1) \<Longrightarrow>
   hist it1 = hist it \<and> dyn_type it1 = dyn_type it \<and> current_index it1 = current_index it \<and>
   it_total_count it1 = it_total_count it \<and>
   percentile_ticks_per_half_distance it1 = percentile_ticks_per_half_distance it \<and>
   total_count_to_current_index it1 = total_count_to_current_index it \<and>
   value_to_index it1 = value_to_index it \<and> fresh_sub_bucket it1 = fresh_sub_bucket it \<and>
   value_at_index it1 = value_at_index it \<and> visited_index it1 = visited_index it \<and>
   current_iteration_value it1 = current_iteration_value it"
  by (auto simp: has_next_def all_values_has_next_def percentile_has_next_def Let_def
           split: policy.splits if_splits)

lemma emit_frame:
  "hist (emit it) = hist it \<and> dyn_type (emit it) = dyn_type it \<and>
   current_index (emit it) = current_index it \<and> it_total_count (emit it) = it_total_count it \<and>
   percentile_ticks_per_half_distance (emit it) = percentile_ticks_per_half_distance it \<and>
   total_count_to_current_index (emit it) = total_count_to_current_index it \<and>
   value_to_index (emit it) = value_to_index it \<and>
   fresh_sub_bucket (emit it) = fresh_sub_bucket it \<and>
   value_at_index (emit it) = value_at_index it \<and> end_flag (emit it) = end_flag it"
  by (simp add: emit_def increment_iteration_level_def percentile_increment_iteration_level_def
        Let_def split: policy.splits)

lemma fold_count_frame:
  "hist (fold_count it c) = hist it \<and> dyn_type (fold_count it c) = dyn_type it \<and>
   current_index (fold_count it c) = current_index it \<and>
   it_total_count (fold_count it c) = it_total_count it \<and>
   percentile_ticks_per_half_distance (fold_count it c) = percentile_ticks_per_half_distance it \<and>
   value_at_index (fold_count it c) = value_at_index it \<and>
   visited_index (fold_count it c) = visited_index it \<and>
   end_flag (fold_count it c) = end_flag it \<and>
   \<not> fresh_sub_bucket (fold_count it c) \<and> count_at_this_value (fold_count it c) = c"
  by (simp add: fold_count_def Let_def)

lemma increment_sub_bucket_frame:
  "hist (increment_sub_bucket it) = hist it \<and> dyn_type (increment_sub_bucket it) = dyn_type it \<and>
   it_total_count (increment_sub_bucket it) = it_total_count it \<and>
   percentile_ticks_per_half_distance (increment_sub_bucket it) =
     percentile_ticks_per_half_distance it \<and>
   current_index (increment_sub_bucket it) = current_index it + 1 \<and>
   total_count_to_current_index (increment_sub_bucket it) = total_count_to_current_index it \<and>
   value_to_index (increment_sub_bucket it) = value_to_index it \<and>
   fresh_sub_bucket (increment_sub_bucket it) \<and>
   visited_index (increment_sub_bucket it) = visited_index it \<and>
   end_flag (increment_sub_bucket it) = end_flag it"
  by (simp add: increment_sub_bucket_def)

lemma advance_keeps_params:
  assumes "advance it = Inr it'"
  shows "hist it' = hist it \<and> dyn_type it' = dyn_type it \<and> it_total_count it' = it_total_count it \<and>
         percentile_ticks_per_half_distance it' = percentile_ticks_per_half_distance it"
proof -
  define I where "I = (\<lambda>x::hdr_iterator. hist x = hist it \<and> dyn_type x = dyn_type it \<and>
      it_total_count x = it_total_count it \<and>
      percentile_ticks_per_half_distance x = percentile_ticks_per_half_distance it)"
  have "I it'"
  proof (rule advance_invariant[OF assms, of I])
    show "I it" by (simp add: I_def)
  next
    fix x b x1 assume "I x" "has_next x = (b, x1)"
    then show "I x1" using has_next_frame[of x b x1] by (simp add: I_def)
  next
    fix x c assume "I x"
    then show "I (emit (fold_count x c))" by (simp add: I_def emit_frame fold_count_frame)
  next
    fix x c assume "I x"
    then show "I (increment_sub_bucket (fold_count x c))"
      by (simp add: I_def increment_sub_bucket_frame fold_count_frame)
  qed
  then show ?thesis by (simp add: I_def)
qed

lemma traverse_fuel_mono:
  "traverse n it = Some r \<Longrightarrow> n \<le> m \<Longrightarrow> traverse m it = Some r"
proof (induction n arbitrary: it m r)
  case 0
  then show ?case by simp
next
  case (Suc n)
  then obtain m' where m: "m = Suc m'" and le: "n \<le> m'" by (cases m) auto
  show ?case
  proof (cases "advance it")
    case (Inl e)
    then show ?thesis using Suc.prems m by simp
  next
    case (Inr it1)
    show ?thesis
    proof (cases "end_flag it1")
      case True
      then show ?thesis using Suc.prems m Inr by simp
    next
      case False
      then obtain r1 where r1: "traverse n it1 = Some r1"
        using Suc.prems Inr by (auto split: option.splits)
      from Suc.IH[OF r1 le] have "traverse m' it1 = Some r1" .
      then show ?thesis using Suc.prems m Inr False r1 by simp
    qed
  qed
qed


subsection \<open>Running totals\<close>

lemma totals_folded_init: "totals_folded (HdrIterator p h ticks)"
  by (simp add: totals_folded_def folded_slots_def HdrIterator_def)

lemma totals_folded_has_next:
  "totals_folded it \<Longrightarrow> has_next it = (b, it1) \<Longrightarrow> totals_folded it1"
  using has_next_frame[of it b it1] by (simp add: totals_folded_def folded_slots_def)

lemma totals_folded_fold_count:
  assumes "totals_folded it" and "get_count_at_index (hist it) (current_index it) = Inr c"
  shows "totals_folded (fold_count it c)"
proof (cases "fresh_sub_bucket it")
  case False
  then show ?thesis using assms(1)
    by (simp add: totals_folded_def folded_slots_def fold_count_def Let_def)
next
  case True
  from assms(2) have rng: "0 \<le> current_index it" "nat (current_index it) < length (counts (hist it))"
    and c: "c = counts (hist it) ! nat (current_index it)"
    by (auto simp: get_count_at_index_def split: if_splits)
  have tk: "sum_list (take (Suc (nat (current_index it))) (counts (hist it))) =
            sum_list (take (nat (current_index it)) (counts (hist it))) + c"
    using rng c by (simp add: take_Suc_conv_app_nth)
  have bv: "get_highest_equivalent_value (hist it) (value_at_index it) =
            bucket_value (hist it) (nat (current_index it))"
    using assms(1) rng by (auto simp: totals_folded_def bucket_value_def)
  show ?thesis using assms(1) True rng tk bv c
    by (simp add: totals_folded_def folded_slots_def fold_count_def Let_def
          get_value_iterated_to_def wrap64_add_left wrap64_add_right)
qed

lemma totals_folded_emit: "totals_folded it \<Longrightarrow> totals_folded (emit it)"
  by (simp add: totals_folded_def folded_slots_def emit_frame)

lemma totals_folded_increment:
  assumes "totals_folded it" and "\<not> fresh_sub_bucket it"
  shows "totals_folded (increment_sub_bucket it)"
proof -
  have "nat (current_index it + 1) = nat (current_index it) + 1"
    using assms(1) by (simp add: totals_folded_def nat_add_distrib)
  then show ?thesis using assms
    by (simp add: totals_folded_def folded_slots_def increment_sub_bucket_def)
qed

lemma totals_folded_advance:
  assumes "advance it = Inr it'" and "totals_folded it"
  shows "totals_folded it'"
proof (rule advance_invariant[OF assms(1), of totals_folded])
  show "totals_folded it" by fact
next
  fix x b x1 assume "totals_folded x" "has_next x = (b, x1)"
  then show "totals_folded x1" by (rule totals_folded_has_next)
next
  fix x c assume "totals_folded x" "get_count_at_index (hist x) (current_index x) = Inr c"
  then show "totals_folded (emit (fold_count x c))"
    by (intro totals_folded_emit totals_folded_fold_count)
next
  fix x c assume "totals_folded x" "get_count_at_index (hist x) (current_index x) = Inr c"
  then show "totals_folded (increment_sub_bucket (fold_count x c))"
    by (intro totals_folded_increment totals_folded_fold_count) (simp_all add: fold_count_frame)
qed

lemma advance_n_keeps_hist: "advance_n n it = Inr it' \<Longrightarrow> hist it' = hist it"
  by (induction n arbitrary: it) (auto split: sum.splits dest: advance_keeps_params)

lemma totals_folded_advance_n:
  "advance_n n it = Inr it' \<Longrightarrow> totals_folded it \<Longrightarrow> totals_folded it'"
  by (induction n arbitrary: it) (auto split: sum.splits dest: totals_folded_advance)


text \<open>
  C8 (amended). In every state a cursor of any policy reaches by advance requests from
  its construction, if the fresh flag is clear then the running count is the sum of the
  slot counts at the indices 0 to the current index, and the running weighted sum is
  the sum over the same indices of count times bucket value, each reduced into the
  range of \<open>int64_t\<close>: every slot is folded in once. Where the sum itself lies in the
  range of \<open>int64_t\<close> the running total equals it.
\<close>

theorem counts_folded_once:
  assumes "advance_n n (HdrIterator p h ticks) = Inr it" and "\<not> fresh_sub_bucket it"
  shows "total_count_to_current_index it =
           wrap64 (sum_list (take (nat (current_index it) + 1) (counts h))) \<and>
         value_to_index it =
           wrap64 (\<Sum>j < nat (current_index it) + 1. counts h ! j * bucket_value h j) \<and>
         (int64 (sum_list (take (nat (current_index it) + 1) (counts h))) \<longrightarrow>
            total_count_to_current_index it =
              sum_list (take (nat (current_index it) + 1) (counts h))) \<and>
         (int64 (\<Sum>j < nat (current_index it) + 1. counts h ! j * bucket_value h j) \<longrightarrow>
            value_to_index it =
              (\<Sum>j < nat (current_index it) + 1. counts h ! j * bucket_value h j))"
proof -
  have "totals_folded it"
    using totals_folded_advance_n[OF assms(1) totals_folded_init] .
  moreover have "hist it = h"
    using advance_n_keeps_hist[OF assms(1)] by (simp add: HdrIterator_def)
  ultimately have
    c: "total_count_to_current_index it =
          wrap64 (sum_list (take (nat (current_index it) + 1) (counts h)))"
    and v: "value_to_index it =
          wrap64 (\<Sum>j < nat (current_index it) + 1. counts h ! j * bucket_value h j)"
    using assms(2) by (simp_all add: totals_folded_def folded_slots_def)
  show ?thesis
    using c v by (simp add: wrap64_int64)
qed

theorem counts_folded_once_witness:
  "\<exists>it. advance_n 2 (HdrIterator Recorded example_hist (Fin 0)) = Inr it \<and>
     fresh_sub_bucket it = False \<and> current_index it = 2 \<and>
     total_count_to_current_index it = 5 \<and> value_to_index it = 8 \<and>
     int64 (sum_list (take (nat (current_index it) + 1) (counts example_hist))) \<and>
     int64 (\<Sum>j < nat (current_index it) + 1.
              counts example_hist ! j * bucket_value example_hist j) \<and>
     total_count_to_current_index it =
       sum_list (take (nat (current_index it) + 1) (counts example_hist)) \<and>
     value_to_index it =
       (\<Sum>j < nat (current_index it) + 1. counts example_hist ! j * bucket_value example_hist j)"
proof -
  obtain it where a: "advance_n 2 (HdrIterator Recorded example_hist (Fin 0)) = Inr it"
    and f: "\<not> fresh_sub_bucket it" and i: "current_index it = 2"
    and v: "total_count_to_current_index it = 5" "value_to_index it = 8"
    by (simp add: numeral_nat advance.simps hooks_defs ctor_defs example_hist_def Let_def)
  have "nat (current_index it) + 1 = 3" using i by simp
  then have r: "int64 (sum_list (take (nat (current_index it) + 1) (counts example_hist)))"
    "int64 (\<Sum>j < nat (current_index it) + 1.
              counts example_hist ! j * bucket_value example_hist j)"
    by (simp_all add: int64_def example_hist_def bucket_value_def numeral_nat lessThan_Suc)
  from counts_folded_once[OF a f] r
  have r1: "total_count_to_current_index it =
              sum_list (take (nat (current_index it) + 1) (counts example_hist))"
    and r2: "value_to_index it =
       (\<Sum>j < nat (current_index it) + 1. counts example_hist ! j * bucket_value example_hist j)"
    by blast+
  have f': "fresh_sub_bucket it = False" using f by simp
  show ?thesis
    by (rule exI[of _ it]) (intro conjI a f' i v r r1 r2)
qed

text \<open>
  C8 as stated (the running weighted sum is the sum of count times bucket value) fails
  where that sum leaves the range of \<open>int64_t\<close>: with \<open>2 ^ 62\<close> values recorded at
  the value 2, the first emission of the recorded cursor stands at slot 2 with the fresh
  flag clear and a weighted sum of \<open>- 2 ^ 63\<close>, while the sum over the slots 0 to 2
  is \<open>2 ^ 63\<close>.
\<close>

theorem weighted_sum_overflow_counterexample:
  "wf_hist overflow_hist \<and>
   map_sum id (\<lambda>it. (fresh_sub_bucket it, current_index it, value_to_index it))
     (advance_n 1 (RecordedIterator overflow_hist)) = Inr (False, 2, - 9223372036854775808) \<and>
   (\<Sum>j < 3. counts overflow_hist ! j * bucket_value overflow_hist j) = 9223372036854775808"
  by (simp add: wf_hist_def advance.simps hooks_defs ctor_defs overflow_hist_def Let_def
        bucket_value_def numeral_nat lessThan_Suc wrap64_def)

subsection \<open>The final step of the percentile cursor\<close>



subsection \<open>Traversals of the all-values and recorded cursors\<close>

lemma traverse_cong_advance:
  "advance a = advance b \<Longrightarrow> traverse n a = traverse n b"
  by (cases n) simp_all

lemma all_values_has_next_True:
  "current_index it < counts_len (hist it) - 1 \<Longrightarrow> dyn_type it \<noteq> Percentile \<Longrightarrow>
   has_next it = (True, it)"
  by (cases "dyn_type it") (simp_all add: has_next_def all_values_has_next_def)

lemma all_values_has_next_False:
  "\<not> current_index it < counts_len (hist it) - 1 \<Longrightarrow> dyn_type it \<noteq> Percentile \<Longrightarrow>
   has_next it = (False, it\<lparr>end_flag := True\<rparr>)"
  by (cases "dyn_type it") (simp_all add: has_next_def all_values_has_next_def)

lemma get_count_in_range:
  "0 \<le> i \<Longrightarrow> i < int (length (counts h)) \<Longrightarrow> get_count_at_index h i = Inr (counts h ! nat i)"
  by (simp add: get_count_at_index_def)

lemma all_values_run:
  assumes len: "counts_len h = int (length (counts h))"
  shows "dyn_type it = AllValues \<Longrightarrow> hist it = h \<Longrightarrow> current_index it = int i \<Longrightarrow>
         \<not> end_flag it \<Longrightarrow> visited_index it \<noteq> current_index it \<Longrightarrow>
         Suc i + m = length (counts h) \<Longrightarrow>
         \<exists>xs itf. traverse (Suc m) it = Some (Inr (xs, itf)) \<and>
           map count_at_value_iterated_to xs = take m (drop i (counts h))"
proof (induction m arbitrary: it i)
  case 0
  then have "\<not> current_index it < counts_len (hist it) - 1" using len by simp
  then have "advance it = Inr (it\<lparr>end_flag := True\<rparr>)"
    using 0 by (simp add: advance_stop all_values_has_next_False)
  then show ?case by simp
next
  case (Suc m)
  let ?c = "counts h ! i"
  have lt: "current_index it < counts_len (hist it) - 1" using Suc.prems len by simp
  have hn: "has_next it = (True, it)"
    using lt Suc.prems by (simp add: all_values_has_next_True)
  have gc: "get_count_at_index (hist it) (current_index it) = Inr ?c"
    using Suc.prems by (simp add: get_count_in_range)
  define it1 where "it1 = emit (fold_count it ?c)"
  have r1: "reached_iteration_level (fold_count it ?c) = Inr True"
    using Suc.prems by (simp add: reached_iteration_level_def fold_count_frame)
  have a1: "advance it = Inr it1"
    unfolding it1_def by (rule advance_emit[OF hn gc r1])
  have p1: "dyn_type it1 = AllValues" "hist it1 = h" "current_index it1 = int i" "\<not> end_flag it1"
    using Suc.prems by (simp_all add: it1_def emit_frame fold_count_frame)
  have v1: "visited_index it1 = int i"
    using Suc.prems
    by (simp add: it1_def emit_def increment_iteration_level_def Let_def fold_count_frame)
  have s1: "count_at_value_iterated_to (current_iteration_value it1) = ?c"
    using Suc.prems
    by (simp add: it1_def emit_def increment_iteration_level_def Let_def set_value_def
          fold_count_frame)
  define it2 where "it2 = increment_sub_bucket (fold_count it1 ?c)"
  have hn1: "has_next it1 = (True, it1)"
    using lt Suc.prems p1 by (simp add: all_values_has_next_True)
  have gc1: "get_count_at_index (hist it1) (current_index it1) = Inr ?c"
    using Suc.prems p1 by (simp add: get_count_in_range)
  have r2: "reached_iteration_level (fold_count it1 ?c) = Inr False"
    using p1 v1 by (simp add: reached_iteration_level_def fold_count_frame)
  have a2: "advance it1 = advance it2"
    unfolding it2_def by (rule advance_skip[OF hn1 gc1 r2])
  have p2: "dyn_type it2 = AllValues" "hist it2 = h" "current_index it2 = int (Suc i)"
    "\<not> end_flag it2" "visited_index it2 \<noteq> current_index it2"
    using p1 v1 by (simp_all add: it2_def increment_sub_bucket_frame fold_count_frame)
  have "Suc (Suc i) + m = length (counts h)" using Suc.prems by simp
  from Suc.IH[OF p2 this] obtain xs itf
    where t2: "traverse (Suc m) it2 = Some (Inr (xs, itf))"
      and m2: "map count_at_value_iterated_to xs = take m (drop (Suc i) (counts h))"
    by blast
  have "traverse (Suc m) it1 = Some (Inr (xs, itf))"
    using t2 traverse_cong_advance[OF a2] by simp
  then have t: "traverse (Suc (Suc m)) it = Some (Inr (current_iteration_value it1 # xs, itf))"
    using a1 p1 by simp
  have "i < length (counts h)" using Suc.prems by simp
  then have "take (Suc m) (drop i (counts h)) = ?c # take m (drop (Suc i) (counts h))"
    by (simp add: Cons_nth_drop_Suc[symmetric])
  then show ?case using t s1 m2 by simp
qed


lemma has_next_False_end: "has_next it = (False, it1) \<Longrightarrow> end_flag it1"
  by (auto simp: has_next_def all_values_has_next_def percentile_has_next_def Let_def
           split: policy.splits if_splits)

lemma advance_emitted:
  assumes adv: "advance it = Inr it'"
    and inv: "I it"
    and ne: "\<not> end_flag it'"
    and hn: "\<And>it b it1. I it \<Longrightarrow> has_next it = (b, it1) \<Longrightarrow> I it1"
    and sk: "\<And>it c. I it \<Longrightarrow> get_count_at_index (hist it) (current_index it) = Inr c \<Longrightarrow>
               I (increment_sub_bucket (fold_count it c))"
  shows "\<exists>x c. I x \<and> get_count_at_index (hist x) (current_index x) = Inr c \<and>
           it' = emit (fold_count x c)"
  using adv inv
proof (induction it rule: advance.induct)
  case (1 it)
  obtain b it1 where h: "has_next it = (b, it1)" by (cases "has_next it")
  have i1: "I it1" using hn[OF "1.prems"(2) h] .
  show ?case
  proof (cases b)
    case False
    then have "advance it = Inr it1" using h by (simp add: advance_stop)
    then have "end_flag it'" using "1.prems"(1) h False has_next_False_end[of it it1] by simp
    then show ?thesis using ne by simp
  next
    case True
    show ?thesis
    proof (cases "get_count_at_index (hist it1) (current_index it1)")
      case (Inl e)
      then show ?thesis using "1.prems"(1) h True by (subst (asm) advance.simps) simp
    next
      case (Inr c)
      show ?thesis
      proof (cases "reached_iteration_level (fold_count it1 c)")
        case (Inl e)
        then show ?thesis using "1.prems"(1) h True Inr by (subst (asm) advance.simps) simp
      next
        case r: (Inr r)
        show ?thesis
        proof (cases r)
          case True
          with r have "advance it = Inr (emit (fold_count it1 c))"
            using h \<open>b\<close> Inr by (simp add: advance_emit)
          then have "it' = emit (fold_count it1 c)" using "1.prems"(1) by simp
          then show ?thesis using i1 Inr by blast
        next
          case False
          with r have "advance it = advance (increment_sub_bucket (fold_count it1 c))"
            using h \<open>b\<close> Inr by (simp add: advance_skip)
          then have adv': "advance (increment_sub_bucket (fold_count it1 c)) = Inr it'"
            using "1.prems"(1) by simp
          have bt: "b = True" using \<open>b\<close> by simp
          have rf: "r = False" using False by simp
          show ?thesis
            by (rule "1.IH"[OF h[symmetric] bt Inr r rf adv' sk[OF i1 Inr]])
        qed
      qed
    qed
  qed
qed

lemma traverse_snapshots:
  assumes hn: "\<And>it b it1. I it \<Longrightarrow> has_next it = (b, it1) \<Longrightarrow> I it1"
    and sk: "\<And>it c. I it \<Longrightarrow> get_count_at_index (hist it) (current_index it) = Inr c \<Longrightarrow>
               I (increment_sub_bucket (fold_count it c))"
    and em: "\<And>it c. I it \<Longrightarrow> get_count_at_index (hist it) (current_index it) = Inr c \<Longrightarrow>
               I (emit (fold_count it c)) \<and> Q (current_iteration_value (emit (fold_count it c)))"
  shows "traverse n it = Some (Inr (xs, itf)) \<Longrightarrow> I it \<Longrightarrow> list_all Q xs"
proof (induction n arbitrary: it xs)
  case 0
  then show ?case by simp
next
  case (Suc n)
  show ?case
  proof (cases "advance it")
    case (Inl e)
    then show ?thesis using Suc.prems by simp
  next
    case (Inr it1)
    show ?thesis
    proof (cases "end_flag it1")
      case True
      then show ?thesis using Suc.prems Inr by simp
    next
      case False
      have "\<exists>x c. I x \<and> get_count_at_index (hist x) (current_index x) = Inr c \<and>
           it1 = emit (fold_count x c)"
      proof (rule advance_emitted[of it it1 I, OF Inr Suc.prems(2) False])
        fix y b y1 assume "I y" "has_next y = (b, y1)"
        then show "I y1" by (rule hn)
      next
        fix y c assume "I y" "get_count_at_index (hist y) (current_index y) = Inr c"
        then show "I (increment_sub_bucket (fold_count y c))" by (rule sk)
      qed
      then obtain x c where x: "I x" "get_count_at_index (hist x) (current_index x) = Inr c"
        "it1 = emit (fold_count x c)" by blast
      from em[OF x(1,2)] x(3) have i1: "I it1" and q1: "Q (current_iteration_value it1)"
        by simp_all
      from Suc.prems(1) Inr False obtain ys where
        t: "traverse n it1 = Some (Inr (ys, itf))" and xs: "xs = current_iteration_value it1 # ys"
        by (auto split: option.splits sum.splits prod.splits)
      from Suc.IH[OF t i1] q1 xs show ?thesis by simp
    qed
  qed
qed

lemma recorded_zero_run:
  assumes len: "counts_len h = int (length (counts h))"
    and zero: "list_all (\<lambda>c. c = 0) (counts h)"
  shows "dyn_type it = Recorded \<Longrightarrow> hist it = h \<Longrightarrow> current_index it = int i \<Longrightarrow>
         Suc i + m = length (counts h) \<Longrightarrow>
         \<exists>it'. advance it = Inr it' \<and> end_flag it'"
proof (induction m arbitrary: it i)
  case 0
  then have "\<not> current_index it < counts_len (hist it) - 1" using len by simp
  then have "advance it = Inr (it\<lparr>end_flag := True\<rparr>)"
    using 0 by (simp add: advance_stop all_values_has_next_False)
  then show ?case by simp
next
  case (Suc m)
  have i: "i < length (counts h)" using Suc.prems by simp
  have c0: "counts h ! i = 0" using zero i by (simp add: list_all_length)
  have lt: "current_index it < counts_len (hist it) - 1" using Suc.prems len by simp
  have hn: "has_next it = (True, it)"
    using lt Suc.prems by (simp add: all_values_has_next_True)
  have gc: "get_count_at_index (hist it) (current_index it) = Inr 0"
    using Suc.prems c0 by (simp add: get_count_in_range)
  have r: "reached_iteration_level (fold_count it 0) = Inr False"
    using Suc.prems gc by (simp add: reached_iteration_level_def fold_count_frame)
  have a: "advance it = advance (increment_sub_bucket (fold_count it 0))"
    by (rule advance_skip[OF hn gc r])
  have "\<exists>it'. advance (increment_sub_bucket (fold_count it 0)) = Inr it' \<and> end_flag it'"
    by (rule Suc.IH[of _ "Suc i"])
       (use Suc.prems in \<open>simp_all add: increment_sub_bucket_frame fold_count_frame\<close>)
  then show ?case using a by simp
qed

lemma zero_total_all_zero:
  assumes "wf_hist h" and "total_count h = 0"
  shows "list_all (\<lambda>c. c = 0) (counts h)"
proof -
  have nn: "\<And>x. x \<in> set (counts h) \<Longrightarrow> 0 \<le> x"
    using assms(1) by (simp add: wf_hist_def list_all_iff)
  have "sum_list (counts h) = 0" using assms by (simp add: wf_hist_def)
  then have "\<forall>x\<in>set (counts h). x = 0"
    using sum_list_nonneg_eq_0_iff[of "counts h"] nn by blast
  then show ?thesis by (simp add: list_all_iff)
qed

lemma all_values_zero_percentile:
  assumes zero: "list_all (\<lambda>c. c = 0) (counts h)"
    and t: "traverse n (AllValuesIterator h) = Some (Inr (xs, itf))"
    and tot: "total_count h = 0"
  shows "list_all (\<lambda>x. percentile x = NaN) xs"
proof -
  define I where "I = (\<lambda>x::hdr_iterator. hist x = h \<and> it_total_count x = 0 \<and>
      total_count_to_current_index x = 0)"
  have c0: "\<And>x c. I x \<Longrightarrow> get_count_at_index (hist x) (current_index x) = Inr c \<Longrightarrow> c = 0"
    using zero by (auto simp: I_def get_count_at_index_def list_all_length split: if_splits)
  show ?thesis
  proof (rule traverse_snapshots[of I _ _ _ _ _, OF _ _ _ t])
    show "I (AllValuesIterator h)"
      using tot by (simp add: I_def AllValuesIterator_def HdrIterator_def)
  next
    fix x b x1 assume "I x" "has_next x = (b, x1)"
    then show "I x1" using has_next_frame[of x b x1] by (simp add: I_def)
  next
    fix x c assume a: "I x" "get_count_at_index (hist x) (current_index x) = Inr c"
    then have "c = 0" by (rule c0)
    then show "I (increment_sub_bucket (fold_count x c))"
      using a(1) by (simp add: I_def increment_sub_bucket_def fold_count_def Let_def)
  next
    fix x c assume a: "I x" "get_count_at_index (hist x) (current_index x) = Inr c"
    then have "c = 0" by (rule c0)
    then show "I (emit (fold_count x c)) \<and>
        percentile (current_iteration_value (emit (fold_count x c))) = NaN"
      using a(1)
      by (simp add: I_def emit_def fold_count_def Let_def set_value_def d_of_int_def
            inf_of_sign_def increment_iteration_level_def
            percentile_increment_iteration_level_def split: policy.splits)
  qed
qed


text \<open>
  C3. Over a histogram whose table has \<open>counts_len\<close> slots (at least one), a
  traversal of the all-values cursor with fuel \<open>counts_len\<close> or more ends and emits
  exactly \<open>counts_len - 1\<close> snapshots, whatever the counts: one for each of the
  indices \<open>0\<close> to \<open>counts_len - 2\<close> in order, zero counts included.
\<close>

theorem all_values_emission_count:
  assumes "counts_len h = int (length (counts h))" and "1 \<le> counts_len h"
    and "nat (counts_len h) \<le> n"
  shows "\<exists>xs itf. traverse n (AllValuesIterator h) = Some (Inr (xs, itf)) \<and>
           int (length xs) = counts_len h - 1 \<and>
           map count_at_value_iterated_to xs = butlast (counts h)"
proof -
  obtain m where m: "Suc m = length (counts h)"
    using assms(1,2) by (cases "length (counts h)") auto
  have "\<exists>xs itf. traverse (Suc m) (AllValuesIterator h) = Some (Inr (xs, itf)) \<and>
           map count_at_value_iterated_to xs = take m (drop 0 (counts h))"
    by (rule all_values_run[OF assms(1)])
       (use m in \<open>simp_all add: AllValuesIterator_def HdrIterator_def\<close>)
  then obtain xs itf where t: "traverse (Suc m) (AllValuesIterator h) = Some (Inr (xs, itf))"
    and c: "map count_at_value_iterated_to xs = take m (counts h)"
    by auto
  have le: "Suc m \<le> n" using assms m by simp
  have bl: "take m (counts h) = butlast (counts h)"
  proof -
    have "m = length (counts h) - 1" using m by arith
    then show ?thesis by (simp add: butlast_conv_take)
  qed
  have "length (map count_at_value_iterated_to xs) = m"
    using c m by simp
  then have "int (length xs) = counts_len h - 1" using assms(1) m by simp
  then show ?thesis using traverse_fuel_mono[OF t le] c bl by auto
qed

theorem all_values_emission_count_witness:
  "\<exists>xs itf. traverse 7 (AllValuesIterator example_hist) = Some (Inr (xs, itf)) \<and>
      int (length xs) = counts_len example_hist - 1 \<and>
      map count_at_value_iterated_to xs = butlast (counts example_hist) \<and>
      length xs = 6 \<and> counts_len example_hist = int (length (counts example_hist))"
proof -
  have h: "counts_len example_hist = int (length (counts example_hist))"
    "1 \<le> counts_len example_hist" "nat (counts_len example_hist) \<le> 7"
    by (simp_all add: example_hist_def)
  from all_values_emission_count[OF h] obtain xs itf
    where r: "traverse 7 (AllValuesIterator example_hist) = Some (Inr (xs, itf))"
      "int (length xs) = counts_len example_hist - 1"
      "map count_at_value_iterated_to xs = butlast (counts example_hist)"
    by blast
  have "length xs = 6" using r(2) by (simp add: example_hist_def)
  then show ?thesis using r h(1) by blast
qed

text \<open>
  C5 (amended). Over a well-formed histogram with \<open>total_count = 0\<close> the recorded
  cursor and the percentile cursor emit nothing, so \<open>HdrIterationValue::set\<close> and its
  division by \<open>total_count_\<close> are never reached. The all-values cursor has no such
  case: it still emits \<open>counts_len - 1\<close> snapshots, and the percentile of each is
  \<open>0.0 / 0\<close>, NaN.
\<close>

theorem zero_total_emissions:
  assumes "wf_hist h" and "total_count h = 0"
  shows "emissions (nat (counts_len h)) (RecordedIterator h) = Some [] \<and>
         emissions 1 (PercentileIterator h ticks) = Some [] \<and>
         (\<exists>xs. emissions (nat (counts_len h)) (AllValuesIterator h) = Some xs \<and>
            int (length xs) = counts_len h - 1 \<and> list_all (\<lambda>x. percentile x = NaN) xs)"
proof (intro conjI)
  have len: "counts_len h = int (length (counts h))" and ge: "1 \<le> counts_len h"
    using assms(1) by (simp_all add: wf_hist_def)
  have zero: "list_all (\<lambda>c. c = 0) (counts h)"
    using zero_total_all_zero[OF assms] .
  obtain m where m: "Suc m = length (counts h)"
    using len ge by (cases "length (counts h)") auto
  have "\<exists>it'. advance (RecordedIterator h) = Inr it' \<and> end_flag it'"
    by (rule recorded_zero_run[OF len zero, of _ 0 m])
       (use m in \<open>simp_all add: RecordedIterator_def HdrIterator_def\<close>)
  then obtain it' where "advance (RecordedIterator h) = Inr it'" "end_flag it'" by blast
  then have "traverse (Suc m) (RecordedIterator h) = Some (Inr ([], it'))" by simp
  moreover have "nat (counts_len h) = Suc m" using len m by simp
  ultimately show "emissions (nat (counts_len h)) (RecordedIterator h) = Some []"
    by (simp add: emissions_def)
next
  have hn: "has_next (PercentileIterator h ticks) =
        (False, (PercentileIterator h ticks)\<lparr>end_flag := True\<rparr>)"
    using assms(2) by (simp add: has_next_def percentile_has_next_def base_has_next_def
        PercentileIterator_def HdrIterator_def)
  have "advance (PercentileIterator h ticks) = Inr ((PercentileIterator h ticks)\<lparr>end_flag := True\<rparr>)"
    using advance_stop[OF hn] .
  then show "emissions 1 (PercentileIterator h ticks) = Some []"
    by (simp add: emissions_def)
next
  have len: "counts_len h = int (length (counts h))" and ge: "1 \<le> counts_len h"
    using assms(1) by (simp_all add: wf_hist_def)
  have zero: "list_all (\<lambda>c. c = 0) (counts h)"
    using zero_total_all_zero[OF assms] .
  obtain m where m: "Suc m = length (counts h)"
    using len ge by (cases "length (counts h)") auto
  have "\<exists>xs itf. traverse (Suc m) (AllValuesIterator h) = Some (Inr (xs, itf)) \<and>
           map count_at_value_iterated_to xs = take m (drop 0 (counts h))"
    by (rule all_values_run[OF len])
       (use m in \<open>simp_all add: AllValuesIterator_def HdrIterator_def\<close>)
  then obtain xs itf where t: "traverse (Suc m) (AllValuesIterator h) = Some (Inr (xs, itf))"
    and c: "map count_at_value_iterated_to xs = take m (counts h)"
    by auto
  have "length (map count_at_value_iterated_to xs) = m" using c m by simp
  then have l: "int (length xs) = counts_len h - 1" using len m by simp
  have n: "nat (counts_len h) = Suc m" using len m by simp
  have "list_all (\<lambda>x. percentile x = NaN) xs"
    using all_values_zero_percentile[OF zero t assms(2)] .
  then show "\<exists>xs. emissions (nat (counts_len h)) (AllValuesIterator h) = Some xs \<and>
            int (length xs) = counts_len h - 1 \<and> list_all (\<lambda>x. percentile x = NaN) xs"
    using t l n by (simp add: emissions_def)
qed

theorem zero_total_emissions_witness:
  "wf_hist zero_hist \<and> total_count zero_hist = 0 \<and>
   emissions 3 (RecordedIterator zero_hist) = Some [] \<and>
   emissions 1 (PercentileIterator zero_hist (Fin 1)) = Some []"
proof -
  have h: "wf_hist zero_hist" "total_count zero_hist = 0"
    by (simp_all add: wf_hist_def zero_hist_def)
  have n: "nat (counts_len zero_hist) = 3" by (simp add: zero_hist_def)
  from zero_total_emissions[OF h, of "Fin 1"] h n show ?thesis by simp
qed


text \<open>
  C5 as stated ("no traversal of any cursor policy ... yields zero emissions rather than
  a faulted/NaN percentile") fails for the all-values cursor: over the empty histogram
  of three slots it emits two snapshots, each with percentile NaN.
\<close>

theorem all_values_zero_total_counterexample:
  "total_count zero_hist = 0 \<and>
   map_option (map percentile) (emissions 3 (AllValuesIterator zero_hist)) = Some [NaN, NaN]"
  by (simp add: emissions_def numeral_nat advance.simps hooks_defs ctor_defs zero_hist_def Let_def)


subsection \<open>Evaluating the percentile cursor\<close>

lemma percentile_increment_eval:
  assumes "percentile_to_iterate_to it = Fin t"
    and "percentile_ticks_per_half_distance it = Fin k"
    and "k \<noteq> 0" and "t \<le> 100"
  shows "percentile_increment_iteration_level it =
           it\<lparr>percentile_to_iterate_from := Fin t,
              percentile_to_iterate_to := Fin (t + (100 - t) / (2 * k))\<rparr>"
proof (cases "t = 100")
  case True
  then show ?thesis using assms
    by (simp add: percentile_increment_iteration_level_def dsub_def Let_def)
next
  case False
  with assms have g: "0 < 100 - t" by simp
  have st: "100 / (k * 2 powr (ln (100 / (100 - t)) / ln 2 + 1)) = (100 - t) / (2 * k)"
    using target_step[OF g \<open>k \<noteq> 0\<close>] .
  have pos: "0 < 100 / (100 - t)" using g by simp
  have nz: "2 powr (ln (100 / (100 - t)) / ln 2 + 1) \<noteq> 0" by simp
  show ?thesis using assms False g pos nz
    by (simp add: percentile_increment_iteration_level_def dsub_def Let_def st
          inf_of_sign_def del: powr_eq_0_iff)
qed

lemma percentile_increment_run:
  "percentile_increment_iteration_level it =
     (case percentile_ticks_per_half_distance it of
        Fin k \<Rightarrow>
          (case percentile_to_iterate_to it of
             Fin t \<Rightarrow>
               if k \<noteq> 0 \<and> t \<le> 100
               then it\<lparr>percentile_to_iterate_from := Fin t,
                       percentile_to_iterate_to := Fin (t + (100 - t) / (2 * k))\<rparr>
               else percentile_increment_iteration_level it
           | _ \<Rightarrow> percentile_increment_iteration_level it)
      | _ \<Rightarrow> percentile_increment_iteration_level it)"
  by (auto simp: percentile_increment_eval split: double.splits)

lemmas run_defs = has_next_def all_values_has_next_def percentile_has_next_def base_has_next_def
  reached_iteration_level_def increment_iteration_level_def
  get_percentile_iterated_to_def get_value_iterated_to_def set_value_def increment_sub_bucket_def
  fold_count_def emit_def get_count_at_index_def d_of_int_def inf_of_sign_def
  wrap64_small round_to_double_small

subsection \<open>What the recorded cursor emits\<close>

text \<open>
  The recorded cursor emits once for every nonzero slot among the indices \<open>0\<close> to
  \<open>counts_len - 2\<close>, in order, each snapshot carrying the count of its slot. The last
  slot is outside the bound of the loop.
\<close>

lemma recorded_run:
  assumes len: "counts_len h = int (length (counts h))"
  shows "dyn_type it = Recorded \<Longrightarrow> hist it = h \<Longrightarrow> current_index it = int i \<Longrightarrow>
         \<not> end_flag it \<Longrightarrow> visited_index it < current_index it \<Longrightarrow>
         fresh_sub_bucket it \<Longrightarrow>
         Suc i + m = length (counts h) \<Longrightarrow>
         \<exists>xs itf. traverse (Suc m) it = Some (Inr (xs, itf)) \<and>
           map count_at_value_iterated_to xs =
             filter (\<lambda>c. c \<noteq> 0) (take m (drop i (counts h)))"
proof (induction m arbitrary: it i)
  case 0
  then have "\<not> current_index it < counts_len (hist it) - 1" using len by simp
  then have "advance it = Inr (it\<lparr>end_flag := True\<rparr>)"
    using 0 by (simp add: advance_stop all_values_has_next_False)
  then show ?case by simp
next
  case (Suc m)
  let ?c = "counts h ! i"
  have i: "i < length (counts h)" using Suc.prems by simp
  have tk: "take (Suc m) (drop i (counts h)) = ?c # take m (drop (Suc i) (counts h))"
    using i by (simp add: Cons_nth_drop_Suc[symmetric])
  have lt: "current_index it < counts_len (hist it) - 1" using Suc.prems len by simp
  have hn: "has_next it = (True, it)"
    using lt Suc.prems by (simp add: all_values_has_next_True)
  have gc: "get_count_at_index (hist it) (current_index it) = Inr ?c"
    using Suc.prems by (simp add: get_count_in_range)
  have rest: "Suc (Suc i) + m = length (counts h)" using Suc.prems by simp
  show ?case
  proof (cases "?c = 0")
    case True
    define it2 where "it2 = increment_sub_bucket (fold_count it ?c)"
    have r: "reached_iteration_level (fold_count it ?c) = Inr False"
      using Suc.prems gc True by (simp add: reached_iteration_level_def fold_count_frame)
    have a: "advance it = advance it2"
      unfolding it2_def by (rule advance_skip[OF hn gc r])
    have p2: "dyn_type it2 = Recorded" "hist it2 = h" "current_index it2 = int (Suc i)"
      "\<not> end_flag it2" "visited_index it2 < current_index it2" "fresh_sub_bucket it2"
      using Suc.prems True
      by (simp_all add: it2_def increment_sub_bucket_def fold_count_def Let_def)
    from Suc.IH[OF p2 rest] obtain xs itf
      where t2: "traverse (Suc m) it2 = Some (Inr (xs, itf))"
        and m2: "map count_at_value_iterated_to xs =
                   filter (\<lambda>c. c \<noteq> 0) (take m (drop (Suc i) (counts h)))"
      by blast
    have "traverse (Suc m) it = Some (Inr (xs, itf))"
      using t2 traverse_cong_advance[OF a] by simp
    then have "traverse (Suc (Suc m)) it = Some (Inr (xs, itf))"
      by (rule traverse_fuel_mono) simp
    then show ?thesis using m2 tk True by simp
  next
    case False
    define it1 where "it1 = emit (fold_count it ?c)"
    have r1: "reached_iteration_level (fold_count it ?c) = Inr True"
      using Suc.prems gc False by (simp add: reached_iteration_level_def fold_count_frame)
    have a1: "advance it = Inr it1"
      unfolding it1_def by (rule advance_emit[OF hn gc r1])
    have p1: "dyn_type it1 = Recorded" "hist it1 = h" "current_index it1 = int i"
      "\<not> end_flag it1" "\<not> fresh_sub_bucket it1"
      using Suc.prems by (simp_all add: it1_def emit_frame fold_count_frame)
    have v1: "visited_index it1 = int i"
      using Suc.prems
      by (simp add: it1_def emit_def increment_iteration_level_def Let_def fold_count_def)
    have s1: "count_at_value_iterated_to (current_iteration_value it1) = ?c"
      using Suc.prems
      by (simp add: it1_def emit_def increment_iteration_level_def Let_def set_value_def
            fold_count_def)
    define it2 where "it2 = increment_sub_bucket (fold_count it1 ?c)"
    have hn1: "has_next it1 = (True, it1)"
      using lt Suc.prems p1 by (simp add: all_values_has_next_True)
    have gc1: "get_count_at_index (hist it1) (current_index it1) = Inr ?c"
      using Suc.prems p1 by (simp add: get_count_in_range)
    have r2: "reached_iteration_level (fold_count it1 ?c) = Inr False"
      using p1 v1 gc1 by (simp add: reached_iteration_level_def fold_count_frame)
    have a2: "advance it1 = advance it2"
      unfolding it2_def by (rule advance_skip[OF hn1 gc1 r2])
    have p2: "dyn_type it2 = Recorded" "hist it2 = h" "current_index it2 = int (Suc i)"
      "\<not> end_flag it2" "visited_index it2 < current_index it2" "fresh_sub_bucket it2"
      using p1 v1
      by (simp_all add: it2_def increment_sub_bucket_def fold_count_def Let_def)
    from Suc.IH[OF p2 rest] obtain xs itf
      where t2: "traverse (Suc m) it2 = Some (Inr (xs, itf))"
        and m2: "map count_at_value_iterated_to xs =
                   filter (\<lambda>c. c \<noteq> 0) (take m (drop (Suc i) (counts h)))"
      by blast
    have "traverse (Suc m) it1 = Some (Inr (xs, itf))"
      using t2 traverse_cong_advance[OF a2] by simp
    then have "traverse (Suc (Suc m)) it = Some (Inr (current_iteration_value it1 # xs, itf))"
      using a1 p1 by simp
    then show ?thesis using m2 tk False s1 by simp
  qed
qed

lemma recorded_emissions:
  assumes "counts_len h = int (length (counts h))" and "1 \<le> counts_len h"
  shows "\<exists>xs. emissions (nat (counts_len h)) (RecordedIterator h) = Some xs \<and>
           map count_at_value_iterated_to xs = filter (\<lambda>c. c \<noteq> 0) (butlast (counts h))"
proof -
  obtain m where m: "Suc m = length (counts h)"
    using assms by (cases "length (counts h)") auto
  have "\<exists>xs itf. traverse (Suc m) (RecordedIterator h) = Some (Inr (xs, itf)) \<and>
           map count_at_value_iterated_to xs =
             filter (\<lambda>c. c \<noteq> 0) (take m (drop 0 (counts h)))"
    by (rule recorded_run[OF assms(1)])
       (use m in \<open>simp_all add: RecordedIterator_def HdrIterator_def\<close>)
  then obtain xs itf where t: "traverse (Suc m) (RecordedIterator h) = Some (Inr (xs, itf))"
    and c: "map count_at_value_iterated_to xs = filter (\<lambda>c. c \<noteq> 0) (take m (counts h))"
    by auto
  have "m = length (counts h) - 1" using m by arith
  then have bl: "take m (counts h) = butlast (counts h)" by (simp add: butlast_conv_take)
  have n: "nat (counts_len h) = Suc m" using assms(1) m by simp
  show ?thesis using t c bl n by (simp add: emissions_def)
qed

text \<open>
  C2 at a failing input. The values 1, 1, 2, 2, 2, 5 are recorded in a table of six
  slots, the 5 in the last one. The loop of the recorded cursor runs while
  \<open>current_index_ < counts_len - 1\<close>, so the last slot is never read: the cursor emits
  two snapshots that add 2 and 3 values, 5 of the 6 recorded. The percentile cursor
  over the same histogram reaches the last slot and accounts for all 6.
\<close>

theorem recorded_misses_last_slot:
  "wf_hist last_slot_hist \<and> total_count last_slot_hist = 6 \<and>
   map_option (map count_added_in_this_iter_step) (emissions 6 (RecordedIterator last_slot_hist))
     = Some [2, 3] \<and>
   map_option (map count_added_in_this_iter_step)
     (emissions 6 (PercentileIterator last_slot_hist (Fin 1))) = Some [2, 3, 0, 1, 0]"
  by (simp add: wf_hist_def emissions_def numeral_nat advance.simps run_defs ctor_defs percentile_increment_run
        last_slot_hist_def Let_def)

subsection \<open>A traversal of the percentile cursor that does not end\<close>

lemma percentile_has_next_more:
  "dyn_type it = Percentile \<Longrightarrow> total_count_to_current_index it < it_total_count it \<Longrightarrow>
   has_next it = (True, it)"
  by (simp add: has_next_def percentile_has_next_def base_has_next_def)

lemma fold_count_folded:
  "\<not> fresh_sub_bucket it \<Longrightarrow> fold_count it c = it\<lparr>count_at_this_value := c\<rparr>"
  by (simp add: fold_count_def Let_def)

lemma percentile_emit_eq:
  assumes "dyn_type it = Percentile" and "percentile_to_iterate_to it = Fin t"
    and "percentile_ticks_per_half_distance it = Fin k" and "k \<noteq> 0" and "t \<le> 100"
  shows "emit it =
           it\<lparr>current_iteration_value := set_value it (get_value_iterated_to it),
              prev_value_iterated_to := get_value_iterated_to it,
              total_count_to_prev_index := total_count_to_current_index it,
              percentile_to_iterate_from := Fin t,
              percentile_to_iterate_to := Fin (t + (100 - t) / (2 * k))\<rparr>"
proof -
  let ?it2 = "it\<lparr>current_iteration_value := set_value it (get_value_iterated_to it),
              prev_value_iterated_to := get_value_iterated_to it,
              total_count_to_prev_index := total_count_to_current_index it\<rparr>"
  have "emit it = percentile_increment_iteration_level ?it2"
    using assms(1) by (simp add: emit_def Let_def increment_iteration_level_def)
  also have "\<dots> = ?it2\<lparr>percentile_to_iterate_from := Fin t,
              percentile_to_iterate_to := Fin (t + (100 - t) / (2 * k))\<rparr>"
    by (rule percentile_increment_eval) (use assms in simp_all)
  finally show ?thesis by simp
qed

lemma big_round:
  "round_to_double 1152921504606846975 = 1152921504606846976"
  "round_to_double 1152921504606846976 = 1152921504606846976"
  by (simp_all add: round_to_double_def excess_bits_def Let_def)

lemma big_percentile:
  "ddiv (dmul (Fin 100) (d_of_int 1152921504606846975)) (d_of_int 1152921504606846976) = Fin 100"
  by (simp add: d_of_int_def big_round)

lemma at_big_slot_advance:
  assumes "at_big_slot it"
  shows "\<exists>it1. advance it = Inr it1 \<and> at_big_slot it1"
proof -
  from assms obtain t where t: "percentile_to_iterate_to it = Fin t" "t < 100"
    by (auto simp: at_big_slot_def)
  have p: "dyn_type it = Percentile" "hist it = big_hist"
    "it_total_count it = 1152921504606846976"
    "percentile_ticks_per_half_distance it = Fin 1" "current_index it = 1"
    "\<not> fresh_sub_bucket it" "total_count_to_current_index it = 1152921504606846975"
    "\<not> reached_last_recorded_value it" "\<not> end_flag it"
    using assms by (simp_all add: at_big_slot_def)
  let ?c = "1152921504606846975 :: int"
  let ?T = "it\<lparr>count_at_this_value := ?c\<rparr>"
  have hn: "has_next it = (True, it)"
    using p by (simp add: percentile_has_next_more)
  have gc: "get_count_at_index (hist it) (current_index it) = Inr ?c"
    using p by (simp add: get_count_at_index_def big_hist_def)
  have fc: "fold_count it ?c = ?T" using p(6) by (rule fold_count_folded)
  have r: "reached_iteration_level ?T = Inr True"
    using p t by (simp add: reached_iteration_level_def big_percentile)
  have a: "advance it = Inr (emit ?T)"
    using advance_emit[OF hn gc] r fc by simp
  have e: "emit ?T =
           ?T\<lparr>current_iteration_value := set_value ?T (get_value_iterated_to ?T),
              prev_value_iterated_to := get_value_iterated_to ?T,
              total_count_to_prev_index := total_count_to_current_index ?T,
              percentile_to_iterate_from := Fin t,
              percentile_to_iterate_to := Fin (t + (100 - t) / (2 * 1))\<rparr>"
    by (rule percentile_emit_eq) (use p t in simp_all)
  have "t + (100 - t) / (2 * 1) < 100" using t(2) by (simp add: field_simps)
  then have "at_big_slot (emit ?T)"
    using p unfolding at_big_slot_def by (simp add: e)
  then show ?thesis using a by blast
qed

lemma at_big_slot_never_ends: "at_big_slot it \<Longrightarrow> traverse n it = None"
proof (induction n arbitrary: it)
  case 0
  show ?case by simp
next
  case (Suc n)
  from at_big_slot_advance[OF Suc.prems] obtain it1
    where a: "advance it = Inr it1" and b: "at_big_slot it1" by blast
  have "\<not> end_flag it1" using b by (simp add: at_big_slot_def)
  then show ?case using a Suc.IH[OF b] by simp
qed

lemma big_hist_first_advance:
  "\<exists>it1. advance (PercentileIterator big_hist (Fin 1)) = Inr it1 \<and> at_big_slot it1"
  by (simp add: at_big_slot_def advance.simps run_defs ctor_defs percentile_increment_run
        big_hist_def Let_def big_round)

text \<open>
  C1 at a failing input. Over the histogram with \<open>2 ^ 60 - 1\<close> values in slot 1 and
  one value in slot 2, with one tick per half distance, the traversal of the percentile
  cursor does not end, whatever the fuel. The running count at slot 1 is
  \<open>2 ^ 60 - 1\<close>, below \<open>total_count_\<close>, so \<open>has_next\<close> holds and the final step is
  never forced; as a \<open>double\<close> that count is \<open>2 ^ 60\<close>, so the percentile compared
  with the target is 100 and every advance emits at slot 1 again. No emission has the
  target 100.
\<close>

theorem percentile_never_ends:
  "wf_hist big_hist \<and> 0 < total_count big_hist \<and>
   traverse n (PercentileIterator big_hist (Fin 1)) = None"
proof (intro conjI)
  show "wf_hist big_hist" by (simp add: wf_hist_def big_hist_def)
  show "0 < total_count big_hist" by (simp add: big_hist_def)
  show "traverse n (PercentileIterator big_hist (Fin 1)) = None"
  proof (cases n)
    case 0
    then show ?thesis by simp
  next
    case (Suc m)
    from big_hist_first_advance obtain it1
      where a: "advance (PercentileIterator big_hist (Fin 1)) = Inr it1" and b: "at_big_slot it1"
      by blast
    have "\<not> end_flag it1" using b by (simp add: at_big_slot_def)
    then show ?thesis using Suc a at_big_slot_never_ends[OF b] by simp
  qed
qed

text \<open>
  With half a tick per half distance the first emission moves the target from 0
  straight to 100: the slot that completes the count is emitted at target 100, and the
  final step emits target 100 again.
\<close>

lemma percentile_half_tick_targets:
  "wf_hist example_hist \<and> 0 < total_count example_hist \<and>
   map_option (map percentile_level_iterated_to)
     (emissions 4 (PercentileIterator example_hist (Fin (1 / 2)))) =
     Some [Fin 0, Fin 100, Fin 100]"
  by (simp add: wf_hist_def emissions_def numeral_nat advance.simps run_defs ctor_defs
        percentile_increment_run example_hist_def Let_def)

end
